theory Spec2Isabelle
  imports Main
begin

section \<open>StreamingUploadFileWrapper: bounded replay buffer over a forward-only stream\<close>

text \<open>
  Embedding of \<^verbatim>\<open>lib/googlecloudsdk/command_lib/storage/streaming_upload_file_wrapper.py\<close>.
  Python \<^verbatim>\<open>bytes\<close> are byte lists (\<open>string\<close>: an Isabelle \<open>char\<close> is one byte),
  Python integers are \<open>int\<close>, the deque is a list whose head is the left end.
\<close>

type_synonym bytes = string

subsection \<open>Python slicing\<close>

text \<open>
  A slice bound is adjusted as CPython does: a negative bound counts from
  the end, and the result is clamped to \<open>0 .. len\<close>.
\<close>

definition slice_index :: "nat \<Rightarrow> int \<Rightarrow> nat" where
  "slice_index n i = (if i < 0 then nat (int n + i) else min n (nat i))"

text \<open>\<^verbatim>\<open>xs[a:b]\<close>\<close>

definition py_slice :: "'a list \<Rightarrow> int \<Rightarrow> int \<Rightarrow> 'a list" where
  "py_slice xs a b =
     take (slice_index (length xs) b - slice_index (length xs) a)
          (drop (slice_index (length xs) a) xs)"

text \<open>\<^verbatim>\<open>xs[a:]\<close>\<close>

definition py_slice_from :: "'a list \<Rightarrow> int \<Rightarrow> 'a list" where
  "py_slice_from xs a = drop (slice_index (length xs) a) xs"

subsection \<open>Errors\<close>

text \<open>
  The three \<^verbatim>\<open>errors.Error\<close> raised by \<^verbatim>\<open>seek\<close> carry the numbers their message
  is formatted from. \<open>UnboundLocalError\<close> is what Python raises when
  \<^verbatim>\<open>read_size\<close> is read before any assignment, \<open>IndexError\<close> what
  \<^verbatim>\<open>deque.popleft\<close> raises on an empty deque.
\<close>

datatype error =
    BufferWindowError int int int
  | SeekEndOffsetError int int
  | SeekModeError int int
  | UnboundLocalError
  | IndexError

subsection \<open>The wrapped stream and the wrapper's state\<close>

text \<open>
  The wrapped stream is any object with a \<^verbatim>\<open>read(n)\<close> method: a state \<open>'s\<close> and a
  function from the state and the requested size to the bytes returned and the
  new state.
\<close>

type_synonym 's reader = "'s \<Rightarrow> int \<Rightarrow> bytes \<times> 's"

record 's wrapper =
  stream :: 's
  buffer :: "bytes list"
  max_buffer_size :: int
  buffer_start :: int
  position :: int
  buffer_end :: int

definition init :: "'s \<Rightarrow> int \<Rightarrow> 's wrapper" where
  "init s m =
     \<lparr>stream = s, buffer = [], max_buffer_size = m,
      buffer_start = 0, position = 0, buffer_end = 0\<rparr>"

definition tell :: "'s wrapper \<Rightarrow> int" where
  "tell w = position w"

definition SEEK_SET :: int where "SEEK_SET = 0"
definition SEEK_END :: int where "SEEK_END = 2"

subsection \<open>\<^verbatim>\<open>_read_from_buffer\<close>\<close>

text \<open>
  The \<^verbatim>\<open>for data in self._buffer\<close> loop. The locals are \<open>position_in_buffer\<close>,
  \<open>bytes_remaining\<close>, \<open>read_size\<close> (\<open>None\<close> while unbound) and
  \<open>buffered_data\<close>; \<^verbatim>\<open>self._position\<close> lives in the wrapper. The last statement
  of the loop body, \<^verbatim>\<open>self._position += read_size\<close>, is outside the \<^verbatim>\<open>if\<close>.
\<close>

fun scan_buffer ::
  "bytes list \<Rightarrow> int \<Rightarrow> int \<Rightarrow> int option \<Rightarrow> bytes list \<Rightarrow> 's wrapper
   \<Rightarrow> (error + bytes list) \<times> 's wrapper" where
  "scan_buffer [] position_in_buffer bytes_remaining read_size buffered_data w =
     (Inr buffered_data, w)"
| "scan_buffer (data # rest) position_in_buffer bytes_remaining read_size buffered_data w =
     (let (read_size', bytes_remaining', buffered_data') =
            (if position_in_buffer + int (length data) \<ge> position w then
               (let offset_from_position = position w - position_in_buffer;
                    bytes_to_read_this_block = int (length data) - offset_from_position;
                    r = min bytes_to_read_this_block bytes_remaining
                in (Some r, bytes_remaining - r,
                    buffered_data @
                      [py_slice data offset_from_position (offset_from_position + r)]))
             else (read_size, bytes_remaining, buffered_data))
      in case read_size' of
           None \<Rightarrow> (Inl UnboundLocalError, w)
         | Some r \<Rightarrow>
             scan_buffer rest (position_in_buffer + int (length data)) bytes_remaining'
               read_size' buffered_data' (w\<lparr>position := position w + r\<rparr>))"

definition read_from_buffer :: "int \<Rightarrow> 's wrapper \<Rightarrow> (error + bytes) \<times> 's wrapper" where
  "read_from_buffer amount w =
     (if position w < buffer_end w then
        (case scan_buffer (buffer w) (buffer_start w) amount None [] w of
           (Inl e, w') \<Rightarrow> (Inl e, w')
         | (Inr buffered_data, w') \<Rightarrow> (Inr (concat buffered_data), w'))
      else (Inr [], w))"

subsection \<open>\<^verbatim>\<open>_store_data\<close>\<close>

text \<open>
  The \<^verbatim>\<open>while\<close> loop of \<^verbatim>\<open>_store_data\<close>: pop the oldest chunk, and when that
  leaves room put its tail back. After a refill the window is exactly full, so
  the loop ends; otherwise the deque got shorter.
\<close>

function evict :: "'s wrapper \<Rightarrow> (error + unit) \<times> 's wrapper" where
  "evict w =
     (if buffer_end w - buffer_start w > max_buffer_size w then
        (case buffer w of
           [] \<Rightarrow> (Inl IndexError, w)
         | oldest_data # rest \<Rightarrow>
             (let w1 = w\<lparr>buffer := rest,
                           buffer_start := buffer_start w + int (length oldest_data)\<rparr>
              in if oldest_data \<noteq> [] then
                   (let refill_amount =
                          max_buffer_size w1 - (buffer_end w1 - buffer_start w1)
                    in if refill_amount \<ge> 1 then
                         evict (w1\<lparr>buffer :=
                                     py_slice_from oldest_data (- refill_amount) # buffer w1,
                                   buffer_start := buffer_start w1 - refill_amount\<rparr>)
                       else evict w1)
                 else evict w1))
      else (Inr (), w))"
  by pat_completeness auto
termination
  by (relation "measure (\<lambda>w. 2 * length (buffer w)
        + (if buffer_end w - buffer_start w > max_buffer_size w then 1 else 0))")
     auto

declare evict.simps [simp del]

definition store_data :: "bytes \<Rightarrow> 's wrapper \<Rightarrow> (error + unit) \<times> 's wrapper" where
  "store_data data w =
     (if data \<noteq> [] then
        evict (w\<lparr>buffer := buffer w @ [data],
                 buffer_end := buffer_end w + int (length data)\<rparr>)
      else (Inr (), w))"

subsection \<open>\<^verbatim>\<open>read\<close>\<close>

definition read :: "'s reader \<Rightarrow> int option \<Rightarrow> 's wrapper \<Rightarrow> (error + bytes) \<times> 's wrapper" where
  "read rd sz w =
     (let read_all_bytes = (case sz of None \<Rightarrow> True | Some n \<Rightarrow> n < 0);
          bytes_remaining = (if read_all_bytes then max_buffer_size w else the sz)
      in case read_from_buffer bytes_remaining w of
           (Inl e, w1) \<Rightarrow> (Inl e, w1)
         | (Inr data, w1) \<Rightarrow>
             (let bytes_remaining' = bytes_remaining - int (length data);
                  (new_data, s') =
                    (if read_all_bytes then rd (stream w1) (- 1)
                     else if bytes_remaining' \<noteq> 0 then rd (stream w1) bytes_remaining'
                     else ([], stream w1));
                  w2 = w1\<lparr>stream := s', position := position w1 + int (length new_data)\<rparr>
              in case store_data new_data w2 of
                   (Inl e, w3) \<Rightarrow> (Inl e, w3)
                 | (Inr u, w3) \<Rightarrow> (Inr (data @ new_data), w3)))"

subsection \<open>\<^verbatim>\<open>seek\<close>\<close>

text \<open>
  \<^verbatim>\<open>while self.read(self._max_buffer_size): pass\<close>. Nothing bounds the number of
  rounds for an arbitrary stream, so the loop is a partial function: \<open>None\<close> is
  the loop that never ends.
\<close>

partial_function (option) drain :: "'s reader \<Rightarrow> 's wrapper \<Rightarrow> ((error + unit) \<times> 's wrapper) option" where
  "drain rd w =
     (case read rd (Some (max_buffer_size w)) w of
        (Inl e, w') \<Rightarrow> Some (Inl e, w')
      | (Inr d, w') \<Rightarrow> (if d \<noteq> [] then drain rd w' else Some (Inr (), w')))"

declare drain.simps [code]

definition seek :: "'s reader \<Rightarrow> int \<Rightarrow> int \<Rightarrow> 's wrapper \<Rightarrow> ((error + unit) \<times> 's wrapper) option" where
  "seek rd offset whence w =
     (if whence = SEEK_SET then
        (if offset < buffer_start w \<or> offset > buffer_end w then
           Some (Inl (BufferWindowError offset (buffer_start w) (buffer_end w)), w)
         else Some (Inr (), w\<lparr>position := offset\<rparr>))
      else if whence = SEEK_END then
        (if offset > max_buffer_size w then
           Some (Inl (SeekEndOffsetError offset (max_buffer_size w)), w)
         else
           (case drain rd w of
              None \<Rightarrow> None
            | Some (Inl e, w') \<Rightarrow> Some (Inl e, w')
            | Some (Inr u, w') \<Rightarrow> Some (Inr (), w'\<lparr>position := position w' - offset\<rparr>)))
      else Some (Inl (SeekModeError whence offset), w))"

subsection \<open>Sequences of calls\<close>

datatype operation = Read "int option" | Seek int int

text \<open>
  The wrapper after one call, whether the call returned or raised; \<open>None\<close>
  when the call never comes back.
\<close>

fun apply_op :: "'s reader \<Rightarrow> operation \<Rightarrow> 's wrapper \<Rightarrow> 's wrapper option" where
  "apply_op rd (Read sz) w = Some (snd (read rd sz w))"
| "apply_op rd (Seek offset whence) w = map_option snd (seek rd offset whence w)"

fun run :: "'s reader \<Rightarrow> operation list \<Rightarrow> 's wrapper \<Rightarrow> 's wrapper option" where
  "run rd [] w = Some w"
| "run rd (c # cs) w = (case apply_op rd c w of None \<Rightarrow> None | Some w' \<Rightarrow> run rd cs w')"

text \<open>
  A finite stream that honours the requested size: \<^verbatim>\<open>read(n)\<close> gives the next
  \<open>n\<close> bytes (fewer at the end), a negative \<open>n\<close> gives all that is left.
\<close>

definition list_read :: "bytes reader" where
  "list_read s n = (if n < 0 then (s, []) else (take (nat n) s, drop (nat n) s))"

subsection \<open>A run of \<^verbatim>\<open>read\<close> calls\<close>

text \<open>The bytes each call returned, up to the first call that raised.\<close>

fun read_seq :: "'s reader \<Rightarrow> int option list \<Rightarrow> 's wrapper \<Rightarrow> (error + bytes list) \<times> 's wrapper" where
  "read_seq rd [] w = (Inr [], w)"
| "read_seq rd (sz # szs) w =
     (case read rd sz w of
        (Inl e, w') \<Rightarrow> (Inl e, w')
      | (Inr d, w') \<Rightarrow>
          (case read_seq rd szs w' of
             (Inl e, w'') \<Rightarrow> (Inl e, w'')
           | (Inr ds, w'') \<Rightarrow> (Inr (d # ds), w'')))"


subsection \<open>Predicates used in the statements and proofs\<close>

text \<open>The chunks of the deque add up to the window \<open>[buffer_start, buffer_end)\<close>.\<close>

definition consistent :: "'s wrapper \<Rightarrow> bool" where
  "consistent w \<longleftrightarrow> int (length (concat (buffer w))) = buffer_end w - buffer_start w"

definition inv_window :: "'s wrapper \<Rightarrow> bool" where
  "inv_window w \<longleftrightarrow> consistent w \<and> 0 \<le> max_buffer_size w
     \<and> buffer_end w - buffer_start w \<le> max_buffer_size w"

definition inv_position :: "'s wrapper \<Rightarrow> bool" where
  "inv_position w \<longleftrightarrow> consistent w \<and> position w \<le> buffer_end w"

text \<open>What decreases along the \<^verbatim>\<open>while\<close> loop of \<^verbatim>\<open>_store_data\<close>.\<close>

definition evict_measure :: "'s wrapper \<Rightarrow> nat" where
  "evict_measure w = 2 * length (buffer w)
     + (if buffer_end w - buffer_start w > max_buffer_size w then 1 else 0)"

text \<open>An end-relative seek whose offset is not negative.\<close>

fun end_offset_ok :: "operation \<Rightarrow> bool" where
  "end_offset_ok (Read sz) = True"
| "end_offset_ok (Seek offset whence) = (whence = SEEK_END \<longrightarrow> 0 \<le> offset)"


section \<open>Frame and invariant lemmas\<close>

lemma scan_buffer_frame:
  "scan_buffer cs p r rs acc w = (res, w') \<Longrightarrow> w' = w\<lparr>position := position w'\<rparr>"
proof (induction cs arbitrary: p r rs acc w)
  case Nil
  then show ?case by simp
next
  case (Cons c cs)
  show ?case
  proof (cases "p + int (length c) \<ge> position w")
    case True
    with Cons.prems have
      "scan_buffer cs (p + int (length c)) (r - min (int (length c) - (position w - p)) r)
         (Some (min (int (length c) - (position w - p)) r))
         (acc @ [py_slice c (position w - p) (position w - p + min (int (length c) - (position w - p)) r)])
         (w\<lparr>position := position w + min (int (length c) - (position w - p)) r\<rparr>) = (res, w')"
      by (simp add: Let_def)
    from Cons.IH[OF this] show ?thesis by simp
  next
    case False
    show ?thesis
    proof (cases rs)
      case None
      with False Cons.prems show ?thesis by simp
    next
      case (Some x)
      with False Cons.prems have
        "scan_buffer cs (p + int (length c)) r (Some x) acc (w\<lparr>position := position w + x\<rparr>) = (res, w')"
        by simp
      from Cons.IH[OF this] show ?thesis by simp
    qed
  qed
qed

lemma read_from_buffer_frame:
  "read_from_buffer n w = (res, w') \<Longrightarrow> w' = w\<lparr>position := position w'\<rparr>"
  unfolding read_from_buffer_def
  by (auto split: if_splits prod.splits sum.splits dest: scan_buffer_frame)

lemma read_from_buffer_at_end:
  "buffer_end w \<le> position w \<Longrightarrow> read_from_buffer n w = (Inr [], w)"
  by (simp add: read_from_buffer_def)

lemma store_data_empty: "store_data [] w = (Inr (), w)"
  by (simp add: store_data_def)

lemma length_py_slice_from_tail:
  "1 \<le> k \<Longrightarrow> k \<le> int (length xs) \<Longrightarrow> int (length (py_slice_from xs (- k))) = k"
  unfolding py_slice_from_def slice_index_def by auto

lemma evict_step_refill:
  assumes "buffer_end w - buffer_start w > max_buffer_size w"
    and "buffer w = c # cs" and "c \<noteq> []"
    and "max_buffer_size w - (buffer_end w - (buffer_start w + int (length c))) \<ge> 1"
  shows "evict w = evict (w\<lparr>buffer := py_slice_from c (- (max_buffer_size w - (buffer_end w - (buffer_start w + int (length c))))) # cs,
            buffer_start := buffer_start w + int (length c) - (max_buffer_size w - (buffer_end w - (buffer_start w + int (length c))))\<rparr>)"
  using assms by (subst evict.simps) (simp add: Let_def)

lemma evict_step_drop:
  assumes "buffer_end w - buffer_start w > max_buffer_size w"
    and "buffer w = c # cs"
    and "c = [] \<or> max_buffer_size w - (buffer_end w - (buffer_start w + int (length c))) < 1"
  shows "evict w = evict (w\<lparr>buffer := cs, buffer_start := buffer_start w + int (length c)\<rparr>)"
  using assms by (subst evict.simps) (auto simp add: Let_def)

lemma evict_empty:
  "buffer_end w - buffer_start w > max_buffer_size w \<Longrightarrow> buffer w = [] \<Longrightarrow> evict w = (Inl IndexError, w)"
  by (subst evict.simps) simp

lemma evict_done:
  "buffer_end w - buffer_start w \<le> max_buffer_size w \<Longrightarrow> evict w = (Inr (), w)"
  by (subst evict.simps) simp

lemma evict_consistent:
  "consistent w \<Longrightarrow> evict w = (res, w') \<Longrightarrow>
   consistent w' \<and> stream w' = stream w \<and> position w' = position w
   \<and> buffer_end w' = buffer_end w \<and> max_buffer_size w' = max_buffer_size w"
proof (induction "evict_measure w" arbitrary: w rule: less_induct)
  case less
  show ?case
  proof (cases "buffer_end w - buffer_start w > max_buffer_size w")
    case False
    with less.prems show ?thesis by (simp add: evict_done)
  next
    case over: True
    show ?thesis
    proof (cases "buffer w")
      case Nil
      with over less.prems show ?thesis by (simp add: evict_empty)
    next
      case (Cons c cs)
      let ?refill = "max_buffer_size w - (buffer_end w - (buffer_start w + int (length c)))"
      show ?thesis
      proof (cases "c \<noteq> [] \<and> ?refill \<ge> 1")
        case True
        let ?w2 = "w\<lparr>buffer := py_slice_from c (- ?refill) # cs,
            buffer_start := buffer_start w + int (length c) - ?refill\<rparr>"
        have lt: "?refill < int (length c)" using over by simp
        have len: "int (length (py_slice_from c (- ?refill))) = ?refill"
          using True lt by (intro length_py_slice_from_tail) simp_all
        have c2: "consistent ?w2"
          using less.prems(1) Cons len by (simp add: consistent_def)
        have e: "evict ?w2 = (res, w')"
          using evict_step_refill[OF over Cons] True less.prems(2) by simp
        have m: "evict_measure ?w2 < evict_measure w"
          using over Cons by (simp add: evict_measure_def)
        from less.hyps[OF m c2 e] show ?thesis by simp
      next
        case False
        let ?w2 = "w\<lparr>buffer := cs, buffer_start := buffer_start w + int (length c)\<rparr>"
        have c2: "consistent ?w2"
          using less.prems(1) Cons by (simp add: consistent_def)
        have e: "evict ?w2 = (res, w')"
          using evict_step_drop[OF over Cons] False less.prems(2) by auto
        have m: "evict_measure ?w2 < evict_measure w"
          using over Cons by (simp add: evict_measure_def)
        from less.hyps[OF m c2 e] show ?thesis by simp
      qed
    qed
  qed
qed

lemma evict_bounded:
  "consistent w \<Longrightarrow> 0 \<le> max_buffer_size w \<Longrightarrow> evict w = (res, w') \<Longrightarrow>
   res = Inr () \<and> buffer_end w' - buffer_start w' \<le> max_buffer_size w'"
proof (induction "evict_measure w" arbitrary: w rule: less_induct)
  case less
  show ?case
  proof (cases "buffer_end w - buffer_start w > max_buffer_size w")
    case False
    with less.prems show ?thesis by (simp add: evict_done)
  next
    case over: True
    show ?thesis
    proof (cases "buffer w")
      case Nil
      with over less.prems show ?thesis by (simp add: consistent_def)
    next
      case (Cons c cs)
      let ?refill = "max_buffer_size w - (buffer_end w - (buffer_start w + int (length c)))"
      show ?thesis
      proof (cases "c \<noteq> [] \<and> ?refill \<ge> 1")
        case True
        let ?w2 = "w\<lparr>buffer := py_slice_from c (- ?refill) # cs,
            buffer_start := buffer_start w + int (length c) - ?refill\<rparr>"
        have lt: "?refill < int (length c)" using over by simp
        have len: "int (length (py_slice_from c (- ?refill))) = ?refill"
          using True lt by (intro length_py_slice_from_tail) simp_all
        have c2: "consistent ?w2"
          using less.prems(1) Cons len by (simp add: consistent_def)
        have e: "evict ?w2 = (res, w')"
          using evict_step_refill[OF over Cons] True less.prems(3) by simp
        have m: "evict_measure ?w2 < evict_measure w"
          using over Cons by (simp add: evict_measure_def)
        from less.hyps[OF m c2 _ e] less.prems(2) show ?thesis by simp
      next
        case False
        let ?w2 = "w\<lparr>buffer := cs, buffer_start := buffer_start w + int (length c)\<rparr>"
        have c2: "consistent ?w2"
          using less.prems(1) Cons by (simp add: consistent_def)
        have e: "evict ?w2 = (res, w')"
          using evict_step_drop[OF over Cons] False less.prems(3) by auto
        have m: "evict_measure ?w2 < evict_measure w"
          using over Cons by (simp add: evict_measure_def)
        from less.hyps[OF m c2 _ e] less.prems(2) show ?thesis by simp
      qed
    qed
  qed
qed

lemma store_data_inv:
  assumes "consistent w" and "store_data d w = (res, w')"
  shows "consistent w' \<and> stream w' = stream w \<and> position w' = position w
     \<and> buffer_end w' = buffer_end w + int (length d)
     \<and> max_buffer_size w' = max_buffer_size w"
proof (cases "d = []")
  case True
  with assms show ?thesis by (simp add: store_data_def)
next
  case False
  let ?w1 = "w\<lparr>buffer := buffer w @ [d], buffer_end := buffer_end w + int (length d)\<rparr>"
  have c: "consistent ?w1" using assms(1) by (simp add: consistent_def)
  have e: "evict ?w1 = (res, w')" using assms(2) False by (simp add: store_data_def)
  from evict_consistent[OF c e] show ?thesis by simp
qed

lemma store_data_bounded:
  assumes "consistent w" and "0 \<le> max_buffer_size w"
    and "buffer_end w - buffer_start w \<le> max_buffer_size w"
    and "store_data d w = (res, w')"
  shows "res = Inr () \<and> buffer_end w' - buffer_start w' \<le> max_buffer_size w'"
proof (cases "d = []")
  case True
  with assms show ?thesis by (auto simp add: store_data_def)
next
  case False
  let ?w1 = "w\<lparr>buffer := buffer w @ [d], buffer_end := buffer_end w + int (length d)\<rparr>"
  have c: "consistent ?w1" using assms(1) by (simp add: consistent_def)
  have e: "evict ?w1 = (res, w')" using assms(4) False by (simp add: store_data_def)
  from evict_bounded[OF c _ e] assms(2) show ?thesis by simp
qed

lemma scan_buffer_position:
  "p + int (length (concat cs)) = e \<Longrightarrow> position w \<le> e \<Longrightarrow>
   (rs \<noteq> None \<longrightarrow> position w \<le> p) \<Longrightarrow>
   scan_buffer cs p r rs acc w = (res, w') \<Longrightarrow> position w' \<le> e"
proof (induction cs arbitrary: p r rs acc w)
  case Nil
  then show ?case by simp
next
  case (Cons c cs)
  show ?case
  proof (cases "p + int (length c) \<ge> position w")
    case True
    let ?r = "min (int (length c) - (position w - p)) r"
    let ?w1 = "w\<lparr>position := position w + ?r\<rparr>"
    from True Cons.prems(4) have
      s: "scan_buffer cs (p + int (length c)) (r - ?r) (Some ?r)
         (acc @ [py_slice c (position w - p) (position w - p + ?r)]) ?w1 = (res, w')"
      by (simp add: Let_def)
    have a: "p + int (length c) + int (length (concat cs)) = e"
      using Cons.prems(1) by simp
    have b: "position ?w1 \<le> p + int (length c)" by simp
    have b': "position ?w1 \<le> e" using a b by linarith
    from Cons.IH[OF a b' _ s] b show ?thesis by simp
  next
    case False
    with Cons.prems(3) have "rs = None" by (cases rs) auto
    with False Cons.prems show ?thesis by simp
  qed
qed

lemma read_from_buffer_position:
  assumes "consistent w" and "position w \<le> buffer_end w"
    and "read_from_buffer n w = (res, w')"
  shows "position w' \<le> buffer_end w"
proof (cases "position w < buffer_end w")
  case False
  with assms show ?thesis by (simp add: read_from_buffer_def)
next
  case True
  obtain r1 w1 where s: "scan_buffer (buffer w) (buffer_start w) n None [] w = (r1, w1)"
    by (cases "scan_buffer (buffer w) (buffer_start w) n None [] w")
  have "buffer_start w + int (length (concat (buffer w))) = buffer_end w"
    using assms(1) by (simp add: consistent_def)
  from scan_buffer_position[OF this assms(2) _ s] have "position w1 \<le> buffer_end w" by simp
  moreover have "w' = w1" using assms(3) True s
    by (auto simp: read_from_buffer_def split: sum.splits)
  ultimately show ?thesis by simp
qed

lemma read_cases:
  assumes "read rd sz w = (res, w')"
  obtains (buffer_error) e n where "read_from_buffer n w = (Inl e, w')" and "res = Inl e"
  | (stored) n data w1 new_data s' r3 where
      "read_from_buffer n w = (Inr data, w1)"
      "store_data new_data (w1\<lparr>stream := s', position := position w1 + int (length new_data)\<rparr>)
         = (r3, w')"
      "res = (case r3 of Inl e \<Rightarrow> Inl e | Inr u \<Rightarrow> Inr (data @ new_data))"
proof -
  let ?n = "if (case sz of None \<Rightarrow> True | Some n \<Rightarrow> n < 0) then max_buffer_size w else the sz"
  obtain r1 w1 where rfb: "read_from_buffer ?n w = (r1, w1)"
    by (cases "read_from_buffer ?n w")
  show thesis
  proof (cases r1)
    case (Inl e)
    with rfb assms have "w' = w1" "res = Inl e" by (auto simp: read_def Let_def)
    with rfb Inl show thesis by (intro buffer_error[of ?n e]) simp_all
  next
    case (Inr data)
    let ?nd = "if (case sz of None \<Rightarrow> True | Some n \<Rightarrow> n < 0) then rd (stream w1) (- 1)
               else if ?n - int (length data) \<noteq> 0 then rd (stream w1) (?n - int (length data))
               else ([], stream w1)"
    obtain new_data s' where nd: "?nd = (new_data, s')" by (cases ?nd)
    let ?w2 = "w1\<lparr>stream := s', position := position w1 + int (length new_data)\<rparr>"
    obtain r3 w3 where sd: "store_data new_data ?w2 = (r3, w3)"
      by (cases "store_data new_data ?w2")
    have "read rd sz w = (case r3 of Inl e \<Rightarrow> Inl e | Inr u \<Rightarrow> Inr (data @ new_data), w3)"
      unfolding read_def Let_def rfb Inr using nd sd by (simp split: sum.splits)
    with assms have "w' = w3" "res = (case r3 of Inl e \<Rightarrow> Inl e | Inr u \<Rightarrow> Inr (data @ new_data))"
      by simp_all
    with rfb Inr sd show thesis by (intro stored[of ?n data w1 new_data s' r3]) simp_all
  qed
qed

lemma read_from_buffer_consistent:
  assumes "consistent w" and "read_from_buffer n w = (res, w')"
  shows "consistent w' \<and> max_buffer_size w' = max_buffer_size w
     \<and> buffer_start w' = buffer_start w \<and> buffer_end w' = buffer_end w"
proof -
  from read_from_buffer_frame[OF assms(2)] have "w' = w\<lparr>position := position w'\<rparr>" .
  then have "buffer w' = buffer w \<and> buffer_start w' = buffer_start w \<and> buffer_end w' = buffer_end w
      \<and> max_buffer_size w' = max_buffer_size w"
    by (metis wrapper.select_convs wrapper.surjective wrapper.update_convs(5))
  with assms(1) show ?thesis by (simp add: consistent_def)
qed

lemma read_inv_window:
  assumes "inv_window w" and "read rd sz w = (res, w')"
  shows "inv_window w'"
  using assms(2)
proof (cases rule: read_cases)
  case (buffer_error e n)
  from read_from_buffer_consistent[OF _ buffer_error(1)] assms(1)
  show ?thesis by (simp add: inv_window_def)
next
  case (stored n data w1 new_data s' r3)
  from read_from_buffer_consistent[OF _ stored(1)] assms(1)
  have w1: "consistent w1" "max_buffer_size w1 = max_buffer_size w"
    "buffer_end w1 - buffer_start w1 \<le> max_buffer_size w1" "0 \<le> max_buffer_size w1"
    by (simp_all add: inv_window_def)
  let ?w2 = "w1\<lparr>stream := s', position := position w1 + int (length new_data)\<rparr>"
  have c2: "consistent ?w2" using w1(1) by (simp add: consistent_def)
  from store_data_inv[OF c2 stored(2)] store_data_bounded[OF c2 _ _ stored(2)] w1
  show ?thesis by (simp add: inv_window_def)
qed

lemma read_inv_position:
  assumes "inv_position w" and "read rd sz w = (res, w')"
  shows "inv_position w'"
  using assms(2)
proof (cases rule: read_cases)
  case (buffer_error e n)
  from read_from_buffer_consistent[OF _ buffer_error(1)]
    read_from_buffer_position[OF _ _ buffer_error(1)] assms(1)
  show ?thesis by (simp add: inv_position_def)
next
  case (stored n data w1 new_data s' r3)
  from read_from_buffer_consistent[OF _ stored(1)]
    read_from_buffer_position[OF _ _ stored(1)] assms(1)
  have w1: "consistent w1" "position w1 \<le> buffer_end w1"
    by (simp_all add: inv_position_def)
  let ?w2 = "w1\<lparr>stream := s', position := position w1 + int (length new_data)\<rparr>"
  have c2: "consistent ?w2" using w1(1) by (simp add: consistent_def)
  from store_data_inv[OF c2 stored(2)] w1
  show ?thesis by (simp add: inv_position_def)
qed

lemma drain_preserves:
  assumes step: "\<And>sz w r w'. P w \<Longrightarrow> read rd sz w = (r, w') \<Longrightarrow> P w'"
    and "drain rd w = Some (res, w')" and "P w"
  shows "P w'"
proof -
  have "rd = rd \<longrightarrow> P w \<longrightarrow> P (snd (res, w'))"
  proof (rule drain.raw_induct[where P = "\<lambda>rd0 w y. rd0 = rd \<longrightarrow> P w \<longrightarrow> P (snd y)"])
    show "drain rd w = Some (res, w')" by (rule assms(2))
  next
    fix drain' :: "'a reader \<Rightarrow> 'a wrapper \<Rightarrow> ((error + unit) \<times> 'a wrapper) option"
    fix rd1 w y
    assume IH: "\<And>rd0 w y. drain' rd0 w = Some y \<Longrightarrow> rd0 = rd \<longrightarrow> P w \<longrightarrow> P (snd y)"
    assume body: "(case read rd1 (Some (max_buffer_size w)) w of
        (Inl e, w') \<Rightarrow> Some (Inl e, w')
      | (Inr d, w') \<Rightarrow> (if d \<noteq> [] then drain' rd1 w' else Some (Inr (), w'))) = Some y"
    show "rd1 = rd \<longrightarrow> P w \<longrightarrow> P (snd y)"
    proof (intro impI)
      assume eq: "rd1 = rd" and Pw: "P w"
      obtain r w1 where rd: "read rd (Some (max_buffer_size w)) w = (r, w1)"
        by (cases "read rd (Some (max_buffer_size w)) w")
      from step[OF Pw rd] have P1: "P w1" .
      show "P (snd y)"
      proof (cases r)
        case (Inl e)
        with body rd eq have "y = (Inl e, w1)" by simp
        with P1 show ?thesis by simp
      next
        case (Inr d)
        show ?thesis
        proof (cases "d = []")
          case True
          with Inr body rd eq have "y = (Inr (), w1)" by simp
          with P1 show ?thesis by simp
        next
          case False
          with Inr body rd eq have "drain' rd w1 = Some y" by simp
          from IH[OF this] P1 show ?thesis by simp
        qed
      qed
    qed
  qed
  with assms(3) show ?thesis by simp
qed

lemma seek_preserves:
  assumes step: "\<And>sz w r w'. P w \<Longrightarrow> read rd sz w = (r, w') \<Longrightarrow> P w'"
    and pos: "\<And>w p. P w \<Longrightarrow> whence = SEEK_SET \<Longrightarrow> buffer_start w \<le> p \<Longrightarrow> p \<le> buffer_end w
                \<Longrightarrow> P (w\<lparr>position := p\<rparr>)"
    and rewind: "\<And>w. P w \<Longrightarrow> whence = SEEK_END \<Longrightarrow> P (w\<lparr>position := position w - offset\<rparr>)"
    and "seek rd offset whence w = Some (res, w')" and "P w"
  shows "P w'"
proof (cases "whence = SEEK_SET")
  case True
  with assms(4,5) pos show ?thesis
    by (auto simp: seek_def split: if_splits)
next
  case notset: False
  show ?thesis
  proof (cases "whence = SEEK_END")
    case False
    with notset assms(4,5) show ?thesis by (simp add: seek_def)
  next
    case True
    show ?thesis
    proof (cases "offset > max_buffer_size w")
      case True
      with notset \<open>whence = SEEK_END\<close> assms(4,5) show ?thesis by (simp add: seek_def)
    next
      case False
      with notset True assms(4) obtain r1 w1 where
        d: "drain rd w = Some (r1, w1)"
        and w': "w' = w1 \<or> w' = w1\<lparr>position := position w1 - offset\<rparr>"
        by (auto simp: seek_def split: option.splits sum.splits)
      from drain_preserves[of P rd, OF step d assms(5)] have "P w1" .
      with w' rewind[OF _ True] show ?thesis by auto
    qed
  qed
qed

lemma init_inv_window: "0 \<le> m \<Longrightarrow> inv_window (init s m)"
  by (simp add: inv_window_def consistent_def init_def)

lemma init_inv_position: "inv_position (init s m)"
  by (simp add: inv_position_def consistent_def init_def)

lemma apply_op_inv_window:
  assumes "inv_window w" and "apply_op rd c w = Some w'"
  shows "inv_window w'"
proof (cases c)
  case (Read sz)
  with assms(2) have "read rd sz w = (fst (read rd sz w), w')" by auto
  from read_inv_window[OF assms(1) this] show ?thesis .
next
  case (Seek offset whence)
  with assms(2) obtain res where s: "seek rd offset whence w = Some (res, w')" by auto
  show ?thesis
  proof (rule seek_preserves[of inv_window rd whence offset, OF _ _ _ s assms(1)])
    show "\<And>sz w r w'. inv_window w \<Longrightarrow> read rd sz w = (r, w') \<Longrightarrow> inv_window w'"
      by (rule read_inv_window)
  qed (simp_all add: inv_window_def consistent_def)
qed

lemma run_inv_window:
  "inv_window w \<Longrightarrow> run rd cs w = Some w' \<Longrightarrow> inv_window w'"
proof (induction cs arbitrary: w)
  case Nil
  then show ?case by simp
next
  case (Cons c cs)
  from Cons.prems(2) obtain w1 where a: "apply_op rd c w = Some w1" and r: "run rd cs w1 = Some w'"
    by (auto split: option.splits)
  from Cons.IH[OF apply_op_inv_window[OF Cons.prems(1) a] r] show ?case .
qed

lemma apply_op_inv_position:
  assumes "inv_position w" and "end_offset_ok c" and "apply_op rd c w = Some w'"
  shows "inv_position w'"
proof (cases c)
  case (Read sz)
  with assms(3) have "read rd sz w = (fst (read rd sz w), w')" by auto
  from read_inv_position[OF assms(1) this] show ?thesis .
next
  case (Seek offset whence)
  with assms(3) obtain res where s: "seek rd offset whence w = Some (res, w')" by auto
  show ?thesis
  proof (rule seek_preserves[of inv_position rd whence offset, OF _ _ _ s assms(1)])
    show "\<And>sz w r w'. inv_position w \<Longrightarrow> read rd sz w = (r, w') \<Longrightarrow> inv_position w'"
      by (rule read_inv_position)
  next
    fix w :: "'a wrapper"
    assume "inv_position w" "whence = SEEK_END"
    with assms(2) Seek show "inv_position (w\<lparr>position := position w - offset\<rparr>)"
      by (simp add: inv_position_def consistent_def)
  qed (simp_all add: inv_position_def consistent_def)
qed

lemma run_inv_position:
  "inv_position w \<Longrightarrow> list_all end_offset_ok cs \<Longrightarrow> run rd cs w = Some w' \<Longrightarrow> inv_position w'"
proof (induction cs arbitrary: w)
  case Nil
  then show ?case by simp
next
  case (Cons c cs)
  from Cons.prems(3) obtain w1 where a: "apply_op rd c w = Some w1" and r: "run rd cs w1 = Some w'"
    by (auto split: option.splits)
  from Cons.prems(2) have ok: "end_offset_ok c" "list_all end_offset_ok cs" by simp_all
  from Cons.IH[OF apply_op_inv_position[OF Cons.prems(1) ok(1) a] ok(2) r] show ?case .
qed

lemma read_exhausted:
  assumes "buffer_end w \<le> position w" and "\<forall>n. fst (rd (stream w) n) = []"
  shows "\<exists>s'. read rd sz w = (Inr [], w\<lparr>stream := s'\<rparr>)
            \<and> (s' = stream w \<or> (\<exists>n. s' = snd (rd (stream w) n)))"
proof -
  let ?all = "case sz of None \<Rightarrow> True | Some n \<Rightarrow> n < 0"
  let ?n = "if ?all then max_buffer_size w else the sz"
  have b: "read_from_buffer ?n w = (Inr [], w)"
    using assms(1) by (rule read_from_buffer_at_end)
  show ?thesis
  proof (cases "?all \<or> ?n \<noteq> 0")
    case True
    let ?k = "if ?all then - 1 else ?n"
    obtain d s1 where k: "rd (stream w) ?k = (d, s1)" by (cases "rd (stream w) ?k")
    with assms(2) have "d = []" by (metis fst_conv)
    with k have k': "rd (stream w) ?k = ([], s1)" by simp
    have "read rd sz w = (Inr [], w\<lparr>stream := s1\<rparr>)"
    proof (cases ?all)
      case all: True
      with k' have "rd (stream w) (- 1) = ([], s1)" by simp
      with all show ?thesis unfolding read_def Let_def b by (simp add: store_data_empty)
    next
      case notall: False
      with k' True have "rd (stream w) ?n = ([], s1)" "?n \<noteq> 0" by simp_all
      with notall show ?thesis unfolding read_def Let_def b by (simp add: store_data_empty)
    qed
    moreover have "s1 = snd (rd (stream w) ?k)" using k' by simp
    ultimately show ?thesis by blast
  next
    case False
    then have "read rd sz w = (Inr [], w\<lparr>stream := stream w\<rparr>)"
      unfolding read_def Let_def b by (auto simp: store_data_empty)
    then show ?thesis by blast
  qed
qed


subsection \<open>Reading forward, with no backward seek pending\<close>

lemma read_forward:
  assumes "inv_window w" and "position w = buffer_end w"
    and "(if (case sz of None \<Rightarrow> True | Some n \<Rightarrow> n < 0) then rd (stream w) (- 1)
          else if the sz \<noteq> 0 then rd (stream w) (the sz)
          else ([], stream w)) = (d, s')"
  shows "\<exists>w'. read rd sz w = (Inr d, w') \<and> stream w' = s' \<and> inv_window w'
           \<and> position w' = buffer_end w' \<and> position w' = position w + int (length d)
           \<and> max_buffer_size w' = max_buffer_size w"
proof -
  let ?all = "case sz of None \<Rightarrow> True | Some n \<Rightarrow> n < 0"
  let ?n = "if ?all then max_buffer_size w else the sz"
  have b: "read_from_buffer ?n w = (Inr [], w)"
    using assms(2) by (intro read_from_buffer_at_end) simp
  let ?w2 = "w\<lparr>stream := s', position := position w + int (length d)\<rparr>"
  have c2: "consistent ?w2" using assms(1) by (simp add: inv_window_def consistent_def)
  obtain r3 w3 where sd: "store_data d ?w2 = (r3, w3)" by (cases "store_data d ?w2")
  from store_data_inv[OF c2 sd] store_data_bounded[OF c2 _ _ sd] assms(1,2)
  have w3: "r3 = Inr ()" "stream w3 = s'" "inv_window w3" "position w3 = buffer_end w3"
    "position w3 = position w + int (length d)" "max_buffer_size w3 = max_buffer_size w"
    by (simp_all add: inv_window_def)
  have "read rd sz w = (Inr d, w3)"
  proof (cases ?all)
    case True
    with assms(3) have "rd (stream w) (- 1) = (d, s')" by simp
    with True sd w3(1) show ?thesis unfolding read_def Let_def b by simp
  next
    case notall: False
    show ?thesis
    proof (cases "the sz = 0")
      case True
      with notall assms(3) have "d = []" "s' = stream w" by simp_all
      with notall True sd w3(1) show ?thesis unfolding read_def Let_def b by simp
    next
      case False
      with notall assms(3) have "rd (stream w) (the sz) = (d, s')" by simp
      with notall False sd w3(1) show ?thesis unfolding read_def Let_def b by simp
    qed
  qed
  with w3 show ?thesis by blast
qed

lemma read_forward_list:
  assumes "inv_window w" and "position w = buffer_end w"
  shows "\<exists>d w'. read list_read sz w = (Inr d, w') \<and> d @ stream w' = stream w
           \<and> (\<forall>n. sz = Some n \<and> 0 \<le> n \<longrightarrow>
                  d = take (nat n) (stream w) \<and> stream w' = drop (nat n) (stream w))
           \<and> inv_window w' \<and> position w' = buffer_end w'
           \<and> position w' = position w + int (length d)
           \<and> max_buffer_size w' = max_buffer_size w"
proof -
  let ?c = "if (case sz of None \<Rightarrow> True | Some n \<Rightarrow> n < 0) then list_read (stream w) (- 1)
          else if the sz \<noteq> 0 then list_read (stream w) (the sz)
          else ([], stream w)"
  obtain d s' where c: "?c = (d, s')" by (cases ?c)
  from read_forward[where rd = list_read and w = w and sz = sz and d = d and s' = s', OF assms c]
  obtain w' where
    w': "read list_read sz w = (Inr d, w')" "stream w' = s'" "inv_window w'"
      "position w' = buffer_end w'" "position w' = position w + int (length d)"
      "max_buffer_size w' = max_buffer_size w"
    by blast
  have 1: "d @ s' = stream w"
    using c by (auto simp: list_read_def split: if_splits option.splits)
  have 2: "\<forall>n. sz = Some n \<and> 0 \<le> n \<longrightarrow> d = take (nat n) (stream w) \<and> s' = drop (nat n) (stream w)"
    using c by (auto simp: list_read_def split: if_splits)
  from w' 1 2 show ?thesis by auto
qed

lemma read_seq_forward:
  assumes "inv_window w" and "position w = buffer_end w"
  shows "\<exists>ds w'. read_seq list_read szs w = (Inr ds, w') \<and> length ds = length szs
           \<and> concat ds @ stream w' = stream w
           \<and> (\<forall>ns. szs = map Some ns \<and> list_all (\<lambda>n. 0 \<le> n) ns \<longrightarrow>
                  concat ds = take (nat (sum_list ns)) (stream w))
           \<and> inv_window w' \<and> position w' = buffer_end w'
           \<and> position w' = position w + int (length (concat ds))
           \<and> max_buffer_size w' = max_buffer_size w"
  using assms
proof (induction szs arbitrary: w)
  case Nil
  then show ?case by simp
next
  case (Cons sz szs)
  from read_forward_list[OF Cons.prems, of sz] obtain d w1 where
    r: "read list_read sz w = (Inr d, w1)" and cat: "d @ stream w1 = stream w"
    and ex: "\<forall>n. sz = Some n \<and> 0 \<le> n \<longrightarrow>
                  d = take (nat n) (stream w) \<and> stream w1 = drop (nat n) (stream w)"
    and inv: "inv_window w1" "position w1 = buffer_end w1"
    and pos: "position w1 = position w + int (length d)"
    and mx: "max_buffer_size w1 = max_buffer_size w"
    by blast
  from Cons.IH[OF inv] obtain ds w' where
    rs: "read_seq list_read szs w1 = (Inr ds, w')" and len: "length ds = length szs"
    and cat': "concat ds @ stream w' = stream w1"
    and ex': "\<forall>ns. szs = map Some ns \<and> list_all (\<lambda>n. 0 \<le> n) ns \<longrightarrow>
                  concat ds = take (nat (sum_list ns)) (stream w1)"
    and inv': "inv_window w'" "position w' = buffer_end w'"
    and pos': "position w' = position w1 + int (length (concat ds))"
    and mx': "max_buffer_size w' = max_buffer_size w1"
    by blast
  have rr: "read_seq list_read (sz # szs) w = (Inr (d # ds), w')"
    using r rs by simp
  have exact: "concat (d # ds) = take (nat (sum_list ns)) (stream w)"
    if "sz # szs = map Some ns" and "list_all (\<lambda>n. 0 \<le> n) ns" for ns
  proof -
    from that obtain n ns' where ns: "ns = n # ns'" "sz = Some n" "szs = map Some ns'"
      "0 \<le> n" "list_all (\<lambda>n. 0 \<le> n) ns'"
      by (cases ns) auto
    from ex ns have d: "d = take (nat n) (stream w)" "stream w1 = drop (nat n) (stream w)"
      by simp_all
    from ex' ns have ds: "concat ds = take (nat (sum_list ns')) (drop (nat n) (stream w))"
      using d(2) by simp
    have "0 \<le> sum_list ns'" using ns(5) by (induction ns') auto
    then have "nat (sum_list ns) = nat n + nat (sum_list ns')"
      using ns(1,4) by (simp add: nat_add_distrib)
    then show ?thesis using d(1) ds by (simp add: take_add)
  qed
  from rr len cat cat' exact inv' pos pos' mx mx' show ?case
    by (intro exI[of _ "d # ds"] exI[of _ w']) auto
qed

lemma init_forward: "0 \<le> m \<Longrightarrow> inv_window (init s m) \<and> position (init s m) = buffer_end (init s m)"
  by (simp add: init_inv_window) (simp add: init_def)

lemma drain_forward:
  assumes "inv_window w" and "position w = buffer_end w" and "0 < max_buffer_size w"
  shows "\<exists>w'. drain list_read w = Some (Inr (), w') \<and> stream w' = []
           \<and> position w' = position w + int (length (stream w))
           \<and> max_buffer_size w' = max_buffer_size w"
  using assms
proof (induction "length (stream w)" arbitrary: w rule: less_induct)
  case less
  let ?m = "max_buffer_size w"
  from read_forward_list[OF less.prems(1,2), of "Some ?m"] less.prems(3) obtain d w1 where
    r: "read list_read (Some ?m) w = (Inr d, w1)"
    and d: "d = take (nat ?m) (stream w)" and s1: "stream w1 = drop (nat ?m) (stream w)"
    and inv: "inv_window w1" "position w1 = buffer_end w1"
    and pos: "position w1 = position w + int (length d)"
    and mx: "max_buffer_size w1 = max_buffer_size w"
    by auto
  show ?case
  proof (cases "d = []")
    case True
    with d less.prems(3) have e: "stream w = []" by simp
    have "drain list_read w = Some (Inr (), w1)"
      using r True by (subst drain.simps) simp
    with e s1 pos mx True show ?thesis by simp
  next
    case False
    with d have ne: "stream w \<noteq> []" by auto
    have shorter: "length (stream w1) < length (stream w)"
      using s1 ne less.prems(3) by simp
    from less.hyps[OF shorter inv] mx less.prems(3) obtain w' where
      dr: "drain list_read w1 = Some (Inr (), w')" and e: "stream w' = []"
      and pos': "position w' = position w1 + int (length (stream w1))"
      and mx': "max_buffer_size w' = max_buffer_size w1"
      by auto
    have "drain list_read w = Some (Inr (), w')"
      using r False dr by (subst drain.simps) simp
    moreover have "int (length d) + int (length (stream w1)) = int (length (stream w))"
      using d s1 by (metis append_take_drop_id length_append of_nat_add)
    ultimately show ?thesis using e pos pos' mx mx' by simp
  qed
qed

text \<open>
  Where no backward seek is pending (the fresh wrapper, or after any sequence of
  \<^verbatim>\<open>read\<close> calls), an end-relative seek over a finite stream that honours the
  requested sizes ends, leaves the stream exhausted and puts the position
  \<open>offset\<close> before the end of the stream.
\<close>

lemma seek_end_after_reads:
  assumes "0 < m" and "offset \<le> m"
  shows "\<exists>w'. seek list_read offset SEEK_END (snd (read_seq list_read szs (init bs m)))
            = Some (Inr (), w')
     \<and> stream w' = [] \<and> tell w' = int (length bs) - offset"
proof -
  have m0: "0 \<le> m" using assms(1) by simp
  from init_forward[OF m0, of bs] have i: "inv_window (init bs m)"
    "position (init bs m) = buffer_end (init bs m)" by simp_all
  from read_seq_forward[OF i, of szs] obtain ds w where
    rs: "read_seq list_read szs (init bs m) = (Inr ds, w)"
    and cat: "concat ds @ stream w = stream (init bs m)"
    and inv: "inv_window w" "position w = buffer_end w"
    and pos: "position w = position (init bs m) + int (length (concat ds))"
    and mx: "max_buffer_size w = max_buffer_size (init bs m)"
    by blast
  have s0: "stream (init bs m) = bs" "position (init bs m) = 0" "max_buffer_size (init bs m) = m"
    by (simp_all add: init_def)
  have total: "position w + int (length (stream w)) = int (length bs)"
    using cat pos s0 by (metis add.left_neutral length_append of_nat_add)
  from drain_forward[OF inv] mx s0 assms(1) obtain w1 where
    dr: "drain list_read w = Some (Inr (), w1)" and e: "stream w1 = []"
    and pos1: "position w1 = position w + int (length (stream w))"
    by auto
  have "seek list_read offset SEEK_END w
          = Some (Inr (), w1\<lparr>position := position w1 - offset\<rparr>)"
    using dr mx s0 assms(2) by (simp add: seek_def SEEK_END_def SEEK_SET_def)
  with rs e pos1 total show ?thesis by (simp add: tell_def)
qed

section \<open>The claims\<close>

subsection \<open>C1: replay after an absolute seek\<close>

text \<open>
  C1 says that after a successful absolute \<^verbatim>\<open>seek(offset)\<close> inside the window, reading
  \<open>buffer_end - offset\<close> bytes replays the buffered bytes without error, whichever
  chunk the offset falls in. With the window held as the two chunks \<open>''01''\<close> and
  \<open>''23''\<close>, \<^verbatim>\<open>seek(3)\<close> succeeds and the following \<^verbatim>\<open>read(1)\<close> raises: the first
  chunk ends before the position, so the loop body reaches
  \<^verbatim>\<open>self._position += read_size\<close> with \<^verbatim>\<open>read_size\<close> never assigned.
\<close>

theorem replay_from_later_chunk_raises:
  "(let w = snd (read_seq list_read [Some 2, Some 2] (init ''0123'' 4));
        s = seek list_read 3 SEEK_SET w
    in fst (read_seq list_read [Some 2, Some 2] (init ''0123'' 4)) = Inr [''01'', ''23'']
       \<and> buffer w = [''01'', ''23''] \<and> buffer_start w = 0 \<and> buffer_end w = 4
       \<and> map_option fst s = Some (Inr ())
       \<and> read list_read (Some (buffer_end w - 3)) (snd (the s))
           = (Inl UnboundLocalError, snd (the s)))"
  by code_simp

subsection \<open>C2: the window never exceeds \<^verbatim>\<open>max_buffer_size\<close>\<close>

text \<open>
  C2: for every sequence of \<^verbatim>\<open>read\<close> and \<^verbatim>\<open>seek\<close> calls on a fresh wrapper whose
  \<^verbatim>\<open>max_buffer_size\<close> is not negative, whatever the stream returns and whatever the
  arguments, \<open>buffer_end - buffer_start \<le> max_buffer_size\<close> holds after every call
  that comes back, also when the call raised and also when one new chunk is larger
  than the whole window.
\<close>

theorem window_bounded:
  assumes "0 \<le> m" and "run rd cs (init s m) = Some w"
  shows "buffer_end w - buffer_start w \<le> max_buffer_size w"
  using run_inv_window[OF init_inv_window[OF assms(1)] assms(2)]
  by (simp add: inv_window_def)

theorem window_bounded_witness:
  "(0::int) \<le> 4
   \<and> run list_read [Read (Some 6), Seek 3 SEEK_SET, Read (Some 1)] (init ''0123456789'' 4)
       = Some \<lparr>stream = ''6789'', buffer = [''2345''], max_buffer_size = 4,
               buffer_start = 2, position = 4, buffer_end = 6\<rparr>
   \<and> (6::int) - 2 \<le> 4"
proof -
  have r: "run list_read [Read (Some 6), Seek 3 SEEK_SET, Read (Some 1)] (init ''0123456789'' 4)
       = Some \<lparr>stream = ''6789'', buffer = [''2345''], max_buffer_size = 4,
               buffer_start = 2, position = 4, buffer_end = 6\<rparr>"
    by code_simp
  from window_bounded[OF _ r] r show ?thesis by simp
qed

subsection \<open>C3: reads with no seek in between\<close>



subsection \<open>C4: seeking relative to the end\<close>

text \<open>
  C4 says that for every finite stream of length \<open>L\<close> and every offset with
  \<open>0 \<le> offset \<le> max_buffer_size\<close>, \<^verbatim>\<open>seek(offset, SEEK_END)\<close> drains the stream and
  \<^verbatim>\<open>tell()\<close> is then \<open>L - offset\<close>, so that \<^verbatim>\<open>seek(0, SEEK_END)\<close> leaves \<^verbatim>\<open>tell()\<close>
  at the length of the stream. On a fresh wrapper with \<^verbatim>\<open>max_buffer_size = 4\<close> over
  the 10 bytes \<open>''0123456789''\<close>, \<^verbatim>\<open>seek(1, SEEK_END)\<close> does so: the stream is
  exhausted, the window is held as the chunks \<open>''67''\<close> and \<open>''89''\<close>, and \<^verbatim>\<open>tell()\<close>
  is 9. The following \<^verbatim>\<open>seek(0, SEEK_END)\<close> raises: its first \<^verbatim>\<open>read\<close> scans the
  buffer from position 9, the first chunk ends before it, and
  \<^verbatim>\<open>self._position += read_size\<close> finds \<^verbatim>\<open>read_size\<close> never assigned. \<^verbatim>\<open>tell()\<close>
  stays 9, not 10.
\<close>

theorem seek_end_with_replay_pending_raises:
  "(let s1 = seek list_read 1 SEEK_END (init ''0123456789'' 4);
        w1 = snd (the s1);
        s2 = seek list_read 0 SEEK_END w1
    in map_option fst s1 = Some (Inr ())
       \<and> stream w1 = [] \<and> buffer w1 = [''67'', ''89'']
       \<and> buffer_start w1 = 6 \<and> buffer_end w1 = 10
       \<and> tell w1 = int (length ''0123456789'') - 1
       \<and> (0::int) \<le> max_buffer_size w1
       \<and> s2 = Some (Inl UnboundLocalError, w1)
       \<and> tell (snd (the s2)) = 9
       \<and> tell (snd (the s2)) \<noteq> int (length ''0123456789'') - 0)"
  by code_simp

subsection \<open>C5: an absolute seek outside the window\<close>

text \<open>
  C5: in every state, \<^verbatim>\<open>seek(offset)\<close> with \<open>offset < buffer_start\<close> or
  \<open>offset > buffer_end\<close> raises the window error and leaves the whole wrapper, so
  \<open>position\<close>, \<open>buffer_start\<close>, \<open>buffer_end\<close> and the chunks, as it was.
\<close>

theorem seek_set_outside_window:
  "offset < buffer_start w \<or> offset > buffer_end w \<Longrightarrow>
   seek rd offset SEEK_SET w
     = Some (Inl (BufferWindowError offset (buffer_start w) (buffer_end w)), w)"
  by (simp add: seek_def)

theorem seek_set_outside_window_witness:
  "(1 < buffer_start \<lparr>stream = ''6789'', buffer = [''23'', ''45''], max_buffer_size = 4,
         buffer_start = 2, position = 6, buffer_end = (6::int)\<rparr>
    \<or> 1 > buffer_end \<lparr>stream = ''6789'', buffer = [''23'', ''45''], max_buffer_size = 4,
         buffer_start = 2, position = 6, buffer_end = (6::int)\<rparr>)
   \<and> seek list_read 1 SEEK_SET
        \<lparr>stream = ''6789'', buffer = [''23'', ''45''], max_buffer_size = 4,
         buffer_start = 2, position = 6, buffer_end = 6\<rparr>
      = Some (Inl (BufferWindowError 1 2 6),
          \<lparr>stream = ''6789'', buffer = [''23'', ''45''], max_buffer_size = 4,
           buffer_start = 2, position = 6, buffer_end = 6\<rparr>)"
  using seek_set_outside_window[of 1
      "\<lparr>stream = ''6789'', buffer = [''23'', ''45''], max_buffer_size = 4,
        buffer_start = 2, position = 6, buffer_end = 6\<rparr>" list_read]
  by simp

subsection \<open>C6: an end-relative seek beyond \<^verbatim>\<open>max_buffer_size\<close>\<close>

text \<open>
  C6: in every state and for every stream, \<^verbatim>\<open>seek(offset, SEEK_END)\<close> with
  \<open>offset > max_buffer_size\<close> raises the out-of-range error and returns the wrapper
  unchanged, the state of the stream included: nothing was read from it.
\<close>

theorem seek_end_too_far:
  "offset > max_buffer_size w \<Longrightarrow>
   seek rd offset SEEK_END w = Some (Inl (SeekEndOffsetError offset (max_buffer_size w)), w)"
  by (simp add: seek_def SEEK_END_def SEEK_SET_def)

theorem seek_end_too_far_witness:
  "5 > max_buffer_size \<lparr>stream = ''6789'', buffer = [''23'', ''45''], max_buffer_size = 4,
         buffer_start = 2, position = 6, buffer_end = (6::int)\<rparr>
   \<and> seek list_read 5 SEEK_END
        \<lparr>stream = ''6789'', buffer = [''23'', ''45''], max_buffer_size = 4,
         buffer_start = 2, position = 6, buffer_end = 6\<rparr>
      = Some (Inl (SeekEndOffsetError 5 4),
          \<lparr>stream = ''6789'', buffer = [''23'', ''45''], max_buffer_size = 4,
           buffer_start = 2, position = 6, buffer_end = 6\<rparr>)"
  using seek_end_too_far[of
      "\<lparr>stream = ''6789'', buffer = [''23'', ''45''], max_buffer_size = 4,
        buffer_start = 2, position = 6, buffer_end = 6\<rparr>" 5 list_read]
  by simp

subsection \<open>C7: the position and the end of the window\<close>

text \<open>
  C7 says \<open>position \<le> buffer_end\<close> after every call, for any integer arguments.
  An end-relative seek subtracts its offset from the position after the drain and
  only checks the offset from above, so a negative offset puts the position past
  \<open>buffer_end\<close>. C7 as amended: for every
  sequence of \<^verbatim>\<open>read\<close> and \<^verbatim>\<open>seek\<close> calls on a fresh wrapper in which every
  end-relative seek has an offset of at least 0, \<open>position \<le> buffer_end\<close> holds after
  every call that comes back.
\<close>

theorem position_within_buffer_end:
  assumes "list_all end_offset_ok cs" and "run rd cs (init s m) = Some w"
  shows "position w \<le> buffer_end w"
  using run_inv_position[OF init_inv_position assms]
  by (simp add: inv_position_def)

theorem position_within_buffer_end_witness:
  "list_all end_offset_ok [Read (Some 4), Seek 1 SEEK_END, Read None]
   \<and> run list_read [Read (Some 4), Seek 1 SEEK_END, Read None] (init ''0123'' 4)
       = Some \<lparr>stream = [], buffer = [''0123''], max_buffer_size = 4,
               buffer_start = 0, position = 4, buffer_end = 4\<rparr>
   \<and> (4::int) \<le> 4"
proof -
  have ok: "list_all end_offset_ok [Read (Some 4), Seek 1 SEEK_END, Read None]"
    by (simp add: SEEK_END_def)
  have r: "run list_read [Read (Some 4), Seek 1 SEEK_END, Read None] (init ''0123'' 4)
       = Some \<lparr>stream = [], buffer = [''0123''], max_buffer_size = 4,
               buffer_start = 0, position = 4, buffer_end = 4\<rparr>"
    by code_simp
  from position_within_buffer_end[OF ok r] ok r show ?thesis by simp
qed

theorem position_beyond_buffer_end:
  "run list_read [Seek (- 1) SEEK_END] (init ''0123'' 4)
     = Some \<lparr>stream = [], buffer = [''0123''], max_buffer_size = 4,
             buffer_start = 0, position = 5, buffer_end = 4\<rparr>
   \<and> \<not> (position \<lparr>stream = [], buffer = [''0123''], max_buffer_size = 4,
             buffer_start = 0, position = 5, buffer_end = 4\<rparr>
          \<le> buffer_end \<lparr>stream = [], buffer = [''0123''], max_buffer_size = 4,
             buffer_start = 0, position = 5, buffer_end = 4\<rparr>)"
  by code_simp

subsection \<open>C8: the scenario of the specification\<close>

text \<open>
  C8: with \<^verbatim>\<open>max_buffer_size = 4\<close> over the stream \<open>''0123456789''\<close>: \<^verbatim>\<open>read(4)\<close> returns
  \<open>''0123''\<close> and \<^verbatim>\<open>tell()\<close> is 4; \<^verbatim>\<open>read(2)\<close> returns \<open>''45''\<close>, \<^verbatim>\<open>tell()\<close> is 6 and
  the buffer holds \<open>''2345''\<close> from \<open>buffer_start = 2\<close>; \<^verbatim>\<open>seek(3)\<close> succeeds and
  \<^verbatim>\<open>tell()\<close> is 3; the next \<^verbatim>\<open>read(2)\<close> returns \<open>''34''\<close>, all of it from the buffer
  with the stream untouched, and \<^verbatim>\<open>tell()\<close> is 5.
\<close>

theorem replay_scenario:
  "(let r1 = read list_read (Some 4) (init ''0123456789'' 4);
        r2 = read list_read (Some 2) (snd r1);
        s3 = seek list_read 3 SEEK_SET (snd r2);
        w3 = snd (the s3);
        r4 = read list_read (Some 2) w3
    in fst r1 = Inr ''0123'' \<and> tell (snd r1) = 4
       \<and> fst r2 = Inr ''45'' \<and> tell (snd r2) = 6
       \<and> concat (buffer (snd r2)) = ''2345'' \<and> buffer_start (snd r2) = 2
       \<and> buffer_end (snd r2) = 6
       \<and> map_option fst s3 = Some (Inr ()) \<and> tell w3 = 3
       \<and> fst r4 = Inr ''34'' \<and> tell (snd r4) = 5
       \<and> fst (read_from_buffer 2 w3) = Inr ''34''
       \<and> stream (snd r4) = stream w3)"
  by code_simp

subsection \<open>C9: a read served by the buffer alone\<close>

text \<open>
  C9: when \<^verbatim>\<open>read(size)\<close> with \<open>size \<ge> 0\<close> gets all \<open>size\<close> bytes from the buffer pass,
  the call returns exactly what the buffer pass returned, for every stream: the
  result does not depend on the stream's \<^verbatim>\<open>read\<close> and the stream's state is the one
  before the call.
\<close>

theorem read_served_by_buffer:
  assumes "0 \<le> n" and "read_from_buffer n w = (Inr data, w1)" and "int (length data) = n"
  shows "read rd (Some n) w = (Inr data, w1) \<and> stream w1 = stream w"
proof -
  from read_from_buffer_frame[OF assms(2)] have "w1 = w\<lparr>position := position w1\<rparr>" .
  then have s: "stream w1 = stream w"
    by (metis wrapper.select_convs(1) wrapper.surjective wrapper.update_convs(5))
  have "read rd (Some n) w = (Inr data, w1)"
    using assms by (simp add: read_def store_data_empty)
  with s show ?thesis by simp
qed

theorem read_served_by_buffer_witness:
  "(0::int) \<le> 2
   \<and> read_from_buffer 2 \<lparr>stream = ''6789'', buffer = [''23'', ''45''], max_buffer_size = 4,
         buffer_start = 2, position = 3, buffer_end = 6\<rparr>
       = (Inr ''34'', \<lparr>stream = ''6789'', buffer = [''23'', ''45''], max_buffer_size = 4,
         buffer_start = 2, position = 5, buffer_end = 6\<rparr>)
   \<and> int (length ''34'') = 2
   \<and> read list_read (Some 2) \<lparr>stream = ''6789'', buffer = [''23'', ''45''], max_buffer_size = 4,
         buffer_start = 2, position = 3, buffer_end = 6\<rparr>
       = (Inr ''34'', \<lparr>stream = ''6789'', buffer = [''23'', ''45''], max_buffer_size = 4,
         buffer_start = 2, position = 5, buffer_end = 6\<rparr>)"
proof -
  have b: "read_from_buffer 2 \<lparr>stream = ''6789'', buffer = [''23'', ''45''], max_buffer_size = 4,
         buffer_start = 2, position = 3, buffer_end = 6\<rparr>
       = (Inr ''34'', \<lparr>stream = ''6789'', buffer = [''23'', ''45''], max_buffer_size = 4,
         buffer_start = 2, position = 5, buffer_end = 6\<rparr>)"
    by code_simp
  have l: "int (length ''34'') = 2" by simp
  from read_served_by_buffer[OF _ b l, of list_read] b show ?thesis by simp
qed

subsection \<open>C10: reads at the end of the stream\<close>

text \<open>
  C10: when no backward seek is active (\<open>position = buffer_end\<close>) and the stream is
  exhausted (it is in a set \<open>S\<close> of states where every read returns no bytes and
  stays in \<open>S\<close>), any number of \<^verbatim>\<open>read\<close> calls of any sizes each return the empty
  byte string and leave \<open>position\<close>, \<open>buffer_start\<close>, \<open>buffer_end\<close> and the chunks
  unchanged.
\<close>

theorem read_at_end_of_stream:
  assumes "position w = buffer_end w"
    and "stream w \<in> S"
    and "\<forall>t\<in>S. \<forall>n. fst (rd t n) = [] \<and> snd (rd t n) \<in> S"
  shows "fst (read_seq rd szs w) = Inr (replicate (length szs) [])
     \<and> position (snd (read_seq rd szs w)) = position w
     \<and> buffer_start (snd (read_seq rd szs w)) = buffer_start w
     \<and> buffer_end (snd (read_seq rd szs w)) = buffer_end w
     \<and> buffer (snd (read_seq rd szs w)) = buffer w"
  using assms(1,2)
proof (induction szs arbitrary: w)
  case Nil
  then show ?case by simp
next
  case (Cons sz szs)
  have ex: "\<forall>n. fst (rd (stream w) n) = []" using Cons.prems(2) assms(3) by blast
  have le: "buffer_end w \<le> position w" using Cons.prems(1) by simp
  from read_exhausted[of w rd sz, OF le ex]
  obtain s' where r: "read rd sz w = (Inr [], w\<lparr>stream := s'\<rparr>)"
    and s': "s' = stream w \<or> (\<exists>n. s' = snd (rd (stream w) n))"
    by blast
  from s' Cons.prems(2) assms(3) have "s' \<in> S" by auto
  with Cons.IH[of "w\<lparr>stream := s'\<rparr>"] Cons.prems(1)
  show ?case using r by (auto split: prod.splits sum.splits)
qed

theorem read_at_end_of_stream_witness:
  "position \<lparr>stream = [], buffer = [''0123''], max_buffer_size = 4,
         buffer_start = 0, position = 4, buffer_end = (4::int)\<rparr> = 4
   \<and> (\<forall>n. list_read [] n = ([], []))
   \<and> read_seq list_read [Some 3, None, Some 0]
        \<lparr>stream = [], buffer = [''0123''], max_buffer_size = 4,
         buffer_start = 0, position = 4, buffer_end = 4\<rparr>
      = (Inr [[], [], []], \<lparr>stream = [], buffer = [''0123''], max_buffer_size = 4,
         buffer_start = 0, position = 4, buffer_end = 4\<rparr>)"
proof -
  let ?w = "\<lparr>stream = [], buffer = [''0123''], max_buffer_size = 4,
         buffer_start = 0, position = 4, buffer_end = (4::int)\<rparr>"
  have p: "position ?w = buffer_end ?w" by simp
  have s: "stream ?w \<in> {[]}" by simp
  have c: "\<forall>t\<in>{[]}. \<forall>n. fst (list_read t n) = [] \<and> snd (list_read t n) \<in> {[]}"
    by (simp add: list_read_def)
  have r: "read_seq list_read [Some 3, None, Some 0] ?w = (Inr [[], [], []], ?w)"
    by code_simp
  have e: "\<forall>n. list_read [] n = ([], [])" by (simp add: list_read_def)
  from read_at_end_of_stream[OF p s c, of "[Some 3, None, Some 0]"] e r show ?thesis by simp
qed

end
